theory Spec2Isabelle
  imports Complex_Main "HOL-Library.Word"
begin

section \<open>Strings and messages\<close>

text \<open>
  A JavaScript string is a sequence of 16-bit code units.  Literals of the source are
  written with \<open>lit\<close>, which maps each ASCII character to its code unit.
\<close>

type_synonym jsstring = "16 word list"

definition lit :: "string \<Rightarrow> jsstring" where
  "lit s = map (\<lambda>c. of_nat (of_char c)) s"

text \<open>\<open>types.ts\<close>: the \<open>type\<close> tag of a message and the \<open>Message\<close> interface.\<close>

datatype message_type = Text | Image | File

record message =
  id_msg :: jsstring
  content_msg :: jsstring
  sender_msg :: jsstring
  timestamp_msg :: jsstring
  type_msg :: message_type
  filename_msg :: "jsstring option"
  fileSize_msg :: "nat option"
  mimeType_msg :: "jsstring option"

section \<open>The polling effect of \<open>Chat.tsx\<close>\<close>

definition INITIAL_INTERVAL :: rat where "INITIAL_INTERVAL = 3000"
definition MAX_INTERVAL :: rat where "MAX_INTERVAL = 30000"
definition IDLE_MULTIPLIER :: rat where "IDLE_MULTIPLIER = 3 / 2"
definition ERROR_MULTIPLIER :: rat where "ERROR_MULTIPLIER = 2"

text \<open>
  What \<open>api.pollMessages\<close> resolves to.  The guard \<open>response.messages && ...\<close> of
  \<open>poll\<close> also accepts a response without the field, which is \<open>None\<close> here.
\<close>

record poll_response =
  messages_resp :: "message list option"
  timestamp_resp :: jsstring

datatype poll_result = Resolved poll_response | Rejected

text \<open>
  The state of the effect: the React state \<open>messages\<close>, the four variables of the
  closure, and the environment the closure acts on: the timeouts that are pending
  (handle and delay), the next fresh handle, the cursors of the calls of
  \<open>api.pollMessages\<close> still awaited, and the cursors of all calls made so far.
  Handles are positive and never used again, so \<open>if (pollInterval)\<close> is the test for
  a handle; a handle stays in \<open>pollInterval\<close> after its timeout has fired, and
  clearing it then does nothing.  \<open>loadMessages\<close> and \<open>handleSendMessage\<close> write
  \<open>messages\<close> too; they are no events here, and no property below depends on what the
  list holds.
\<close>

record poller =
  messages :: "message list"
  pollInterval :: "nat option"
  lastTimestamp :: jsstring
  isActive :: bool
  currentPollInterval :: rat
  timers :: "(nat \<times> rat) list"
  nextTimer :: nat
  awaited :: "jsstring list"
  polled :: "jsstring list"

text \<open>The updater that \<open>poll\<close> passes to \<open>setMessages\<close>.\<close>

definition mergeMessages :: "message list \<Rightarrow> message list \<Rightarrow> message list" where
  "mergeMessages response_messages prev =
     (let existingIds = set (map id_msg prev);
          newMessages = filter (\<lambda>m. id_msg m \<notin> existingIds) response_messages
      in if length newMessages > 0 then prev @ newMessages else prev)"

text \<open>\<open>pollInterval = setTimeout(poll, delay)\<close>: a fresh handle becomes pending.\<close>

definition setTimeout :: "rat \<Rightarrow> poller \<Rightarrow> poller" where
  "setTimeout delay s =
     s\<lparr>timers := timers s @ [(nextTimer s, delay)],
       pollInterval := Some (nextTimer s),
       nextTimer := nextTimer s + 1\<rparr>"

definition clearTimeout :: "nat \<Rightarrow> poller \<Rightarrow> poller" where
  "clearTimeout h s = s\<lparr>timers := filter (\<lambda>t. fst t \<noteq> h) (timers s)\<rparr>"

text \<open>\<open>poll\<close> up to its \<open>await\<close>: the guard on \<open>isActive\<close> and the call.\<close>

definition poll_call :: "poller \<Rightarrow> poller" where
  "poll_call s =
     (if \<not> isActive s then s
      else s\<lparr>awaited := awaited s @ [lastTimestamp s],
             polled := polled s @ [lastTimestamp s]\<rparr>)"

text \<open>\<open>poll\<close> from the \<open>await\<close> on: the \<open>try\<close> body or the \<open>catch\<close>, then the timer.\<close>

definition idle :: "poller \<Rightarrow> poller" where
  "idle s =
     s\<lparr>currentPollInterval := min (currentPollInterval s * IDLE_MULTIPLIER) MAX_INTERVAL\<rparr>"

definition poll_settled :: "poll_result \<Rightarrow> poller \<Rightarrow> poller" where
  "poll_settled res s =
     (let s1 =
        (case res of
           Resolved response \<Rightarrow>
             (let s0 =
                (case messages_resp response of
                   Some ms \<Rightarrow>
                     if length ms > 0
                     then s\<lparr>messages := mergeMessages ms (messages s),
                            currentPollInterval := INITIAL_INTERVAL\<rparr>
                     else idle s
                 | None \<Rightarrow> idle s)
              in s0\<lparr>lastTimestamp := timestamp_resp response\<rparr>)
         | Rejected \<Rightarrow>
             s\<lparr>currentPollInterval :=
                 min (currentPollInterval s * ERROR_MULTIPLIER) MAX_INTERVAL\<rparr>)
      in if isActive s1 then setTimeout (currentPollInterval s1) s1 else s1)"

definition handleVisibilityChange :: "bool \<Rightarrow> poller \<Rightarrow> poller" where
  "handleVisibilityChange hidden s =
     (if hidden then
        (let s1 = s\<lparr>isActive := False\<rparr>
         in case pollInterval s1 of
              Some h \<Rightarrow> (clearTimeout h s1)\<lparr>pollInterval := None\<rparr>
            | None \<Rightarrow> s1)
      else if \<not> isActive s then
        poll_call (s\<lparr>isActive := True, currentPollInterval := INITIAL_INTERVAL\<rparr>)
      else s)"

text \<open>
  The effect body: the variables are initialised (\<open>now\<close> is
  \<open>new Date().toISOString()\<close>) and \<open>poll\<close> is called once.
\<close>

definition mount :: "jsstring \<Rightarrow> poller" where
  "mount now =
     poll_call \<lparr>messages = [], pollInterval = None, lastTimestamp = now, isActive = True,
       currentPollInterval = INITIAL_INTERVAL, timers = [], nextTimer = 1,
       awaited = [], polled = []\<rparr>"

text \<open>
  What can happen next: the \<open>k\<close>-th awaited call settles, the timeout with handle
  \<open>h\<close> fires, or the document's visibility changes (with the new value of
  \<open>document.hidden\<close>).  An event that is not enabled leaves the state as it is.
\<close>

datatype event = Settle nat poll_result | Timeout nat | VisibilityChange bool

fun step :: "poller \<Rightarrow> event \<Rightarrow> poller" where
  "step s (Settle k res) =
     (if k < length (awaited s)
      then poll_settled res (s\<lparr>awaited := take k (awaited s) @ drop (Suc k) (awaited s)\<rparr>)
      else s)"
| "step s (Timeout h) =
     (if h \<in> fst ` set (timers s) then poll_call (clearTimeout h s) else s)"
| "step s (VisibilityChange hidden) = handleVisibilityChange hidden s"

definition run :: "poller \<Rightarrow> event list \<Rightarrow> poller" where
  "run s evs = foldl step s evs"

text \<open>The bounds and the update rule of the interval, used to state its invariant.\<close>

definition interval_ok :: "poller \<Rightarrow> bool" where
  "interval_ok s \<longleftrightarrow> 3000 \<le> currentPollInterval s \<and> currentPollInterval s \<le> 30000"

definition next_interval :: "poll_result \<Rightarrow> rat \<Rightarrow> rat" where
  "next_interval res i =
     (case res of
        Resolved response \<Rightarrow>
          (case messages_resp response of
             Some (m # ms) \<Rightarrow> 3000
           | _ \<Rightarrow> min (i * (3 / 2)) 30000)
      | Rejected \<Rightarrow> min (i * 2) 30000)"

text \<open>
  The values the interval takes.  JavaScript numbers are doubles; each of these values
  is a multiple of a quarter below \<open>2 ^ 53\<close>, which a double holds exactly, as it does
  their products by 1.5 and by 2, so the rational arithmetic here is that of the code.
\<close>

definition interval_values :: "rat list" where
  "interval_values =
     [3000, 4500, 6000, 6750, 9000, 10125, 12000, 13500, 30375 / 2, 18000, 20250,
      91125 / 4, 24000, 27000, 30000]"

section \<open>The platform functions the client calls\<close>

subsection \<open>\<open>encodeURIComponent\<close>\<close>

text \<open>
  ECMAScript's \<open>Encode\<close> with the unreserved set of \<open>encodeURIComponent\<close>: letters,
  digits and the marks \<open>- _ . ! ~ * ' ( )\<close> stay; every other code point is written as
  the \<open>%XX\<close> escapes of its UTF-8 octets; an unpaired surrogate throws \<open>URIError\<close>.
\<close>

datatype js_error = URIError

definition uriUnescaped :: "16 word \<Rightarrow> bool" where
  "uriUnescaped c =
     (let n = unat c
      in (65 \<le> n \<and> n \<le> 90) \<or> (97 \<le> n \<and> n \<le> 122) \<or> (48 \<le> n \<and> n \<le> 57)
         \<or> n \<in> {45, 95, 46, 33, 126, 42, 39, 40, 41})"

definition isHighSurrogate :: "16 word \<Rightarrow> bool" where
  "isHighSurrogate c \<longleftrightarrow> 0xD800 \<le> unat c \<and> unat c \<le> 0xDBFF"

definition isLowSurrogate :: "16 word \<Rightarrow> bool" where
  "isLowSurrogate c \<longleftrightarrow> 0xDC00 \<le> unat c \<and> unat c \<le> 0xDFFF"

definition utf8 :: "nat \<Rightarrow> nat list" where
  "utf8 cp =
     (if cp < 0x80 then [cp]
      else if cp < 0x800 then [0xC0 + cp div 64, 0x80 + cp mod 64]
      else if cp < 0x10000 then
        [0xE0 + cp div 4096, 0x80 + (cp div 64) mod 64, 0x80 + cp mod 64]
      else [0xF0 + cp div 262144, 0x80 + (cp div 4096) mod 64,
            0x80 + (cp div 64) mod 64, 0x80 + cp mod 64])"

definition hexDigit :: "nat \<Rightarrow> 16 word" where
  "hexDigit n = (if n < 10 then of_nat (48 + n) else of_nat (55 + n))"

definition escape :: "nat \<Rightarrow> jsstring" where
  "escape octet = [0x25, hexDigit (octet div 16), hexDigit (octet mod 16)]"

definition surrogatePair :: "16 word \<Rightarrow> 16 word \<Rightarrow> nat" where
  "surrogatePair hi lo = 0x10000 + (unat hi - 0xD800) * 0x400 + (unat lo - 0xDC00)"

definition prepend :: "jsstring \<Rightarrow> js_error + jsstring \<Rightarrow> js_error + jsstring" where
  "prepend xs r = (case r of Inl e \<Rightarrow> Inl e | Inr ys \<Rightarrow> Inr (xs @ ys))"

fun encodeURIComponent :: "jsstring \<Rightarrow> js_error + jsstring" where
  "encodeURIComponent [] = Inr []"
| "encodeURIComponent [c] =
     (if uriUnescaped c then Inr [c]
      else if isHighSurrogate c \<or> isLowSurrogate c then Inl URIError
      else Inr (concat (map escape (utf8 (unat c)))))"
| "encodeURIComponent (c # d # ds) =
     (if uriUnescaped c then prepend [c] (encodeURIComponent (d # ds))
      else if isLowSurrogate c then Inl URIError
      else if isHighSurrogate c then
        (if isLowSurrogate d
         then prepend (concat (map escape (utf8 (surrogatePair c d)))) (encodeURIComponent ds)
         else Inl URIError)
      else prepend (concat (map escape (utf8 (unat c)))) (encodeURIComponent (d # ds)))"

text \<open>
  What a server reads back from an escaped component: \<open>%XX\<close> is one octet, any other
  character stands for itself.  With the UTF-8 octets of a string, this states what being
  passed URI-encoded means.
\<close>

definition unhex :: "16 word \<Rightarrow> nat option" where
  "unhex c =
     (let n = unat c
      in if 48 \<le> n \<and> n \<le> 57 then Some (n - 48)
         else if 65 \<le> n \<and> n \<le> 70 then Some (n - 55)
         else if 97 \<le> n \<and> n \<le> 102 then Some (n - 87)
         else None)"

fun percent_decode :: "jsstring \<Rightarrow> nat list option" where
  "percent_decode [] = Some []"
| "percent_decode (c # cs) =
     (if c = 0x25 then
        (case cs of
           h # l # rest \<Rightarrow>
             (case (unhex h, unhex l) of
                (Some a, Some b) \<Rightarrow> map_option ((#) (16 * a + b)) (percent_decode rest)
              | _ \<Rightarrow> None)
         | _ \<Rightarrow> None)
      else map_option ((#) (unat c)) (percent_decode cs))"

fun utf8_string :: "jsstring \<Rightarrow> nat list option" where
  "utf8_string [] = Some []"
| "utf8_string [c] =
     (if isHighSurrogate c \<or> isLowSurrogate c then None else Some (utf8 (unat c)))"
| "utf8_string (c # d # ds) =
     (if isLowSurrogate c then None
      else if isHighSurrogate c then
        (if isLowSurrogate d
         then map_option ((@) (utf8 (surrogatePair c d))) (utf8_string ds)
         else None)
      else map_option ((@) (utf8 (unat c))) (utf8_string (d # ds)))"

subsection \<open>\<open>String.prototype.trim\<close> and \<open>indexOf\<close>\<close>

text \<open>The code units ECMAScript counts as WhiteSpace or LineTerminator.\<close>

definition isWhiteSpace :: "16 word \<Rightarrow> bool" where
  "isWhiteSpace c =
     (let n = unat c
      in n \<in> {0x9, 0xA, 0xB, 0xC, 0xD, 0x20, 0xA0, 0x1680, 0x2028, 0x2029, 0x202F, 0x205F,
               0x3000, 0xFEFF}
         \<or> (0x2000 \<le> n \<and> n \<le> 0x200A))"

definition trim :: "jsstring \<Rightarrow> jsstring" where
  "trim s = rev (dropWhile isWhiteSpace (rev (dropWhile isWhiteSpace s)))"

fun startsWith :: "jsstring \<Rightarrow> jsstring \<Rightarrow> bool" where
  "startsWith s [] = True"
| "startsWith [] (p # ps) = False"
| "startsWith (c # cs) (p # ps) = (c = p \<and> startsWith cs ps)"

fun indexOf_from :: "int \<Rightarrow> jsstring \<Rightarrow> jsstring \<Rightarrow> int" where
  "indexOf_from k [] p = (if p = [] then k else - 1)"
| "indexOf_from k (c # cs) p =
     (if startsWith (c # cs) p then k else indexOf_from (k + 1) cs p)"

definition indexOf :: "jsstring \<Rightarrow> jsstring \<Rightarrow> int" where
  "indexOf s p = indexOf_from 0 s p"

subsection \<open>\<open>URLSearchParams\<close>\<close>

text \<open>
  A \<open>URLSearchParams\<close> object is the list of name-value pairs the browser parsed from
  \<open>window.location.search\<close>; \<open>get\<close> returns the value of the first pair with the
  name, or \<open>null\<close>.
\<close>

type_synonym URLSearchParams = "(jsstring \<times> jsstring) list"

fun get :: "URLSearchParams \<Rightarrow> jsstring \<Rightarrow> jsstring option" where
  "get [] name = None"
| "get ((n, v) # ps) name = (if n = name then Some v else get ps name)"

section \<open>\<open>api.ts\<close>\<close>

record js_file =
  name_file :: jsstring
  type_file :: jsstring
  size_file :: nat

record SendMessageRequest =
  content_req :: jsstring
  sender_req :: jsstring
  type_req :: message_type
  filename_req :: "jsstring option"

datatype form_value = FormFile js_file | FormString jsstring

text \<open>
  A request as axios sends it: the method, the URL, the body (the JSON object with its
  defined fields in order, or the multipart form) and the headers the caller passes.
\<close>

datatype body = Json "(jsstring \<times> jsstring) list" | FormData "(jsstring \<times> form_value) list"

datatype request = GET jsstring | POST jsstring body "(jsstring \<times> jsstring) list"

definition string_of_type :: "message_type \<Rightarrow> jsstring" where
  "string_of_type t = (case t of Text \<Rightarrow> lit ''text'' | Image \<Rightarrow> lit ''image''
     | File \<Rightarrow> lit ''file'')"

definition json_of_request :: "SendMessageRequest \<Rightarrow> (jsstring \<times> jsstring) list" where
  "json_of_request data =
     [(lit ''content'', content_req data), (lit ''sender'', sender_req data),
      (lit ''type'', string_of_type (type_req data))]
     @ (case filename_req data of None \<Rightarrow> [] | Some f \<Rightarrow> [(lit ''filename'', f)])"

definition API_BASE :: jsstring where
  "API_BASE = lit ''/api''"

definition getMessages :: request where
  "getMessages = GET (API_BASE @ lit ''/messages'')"

definition sendMessage :: "SendMessageRequest \<Rightarrow> request" where
  "sendMessage data = POST (API_BASE @ lit ''/messages'') (Json (json_of_request data)) []"

definition uploadFile :: "js_file \<Rightarrow> jsstring \<Rightarrow> request" where
  "uploadFile file sender =
     (let formData = [] @ [(lit ''file'', FormFile file)] @ [(lit ''sender'', FormString sender)]
      in POST (API_BASE @ lit ''/upload'') (FormData formData)
           [(lit ''Content-Type'', lit ''multipart/form-data'')])"

definition pollMessages :: "jsstring \<Rightarrow> js_error + request" where
  "pollMessages since =
     (case encodeURIComponent since of
        Inl e \<Rightarrow> Inl e
      | Inr q \<Rightarrow> Inr (GET (API_BASE @ lit ''/messages/poll?since='' @ q)))"

definition getDeviceName :: "URLSearchParams \<Rightarrow> jsstring" where
  "getDeviceName params =
     (case get params (lit ''device'') of
        None \<Rightarrow> lit ''Browser''
      | Some v \<Rightarrow> if v = [] then lit ''Browser'' else v)"

section \<open>Sending in \<open>Chat.tsx\<close>\<close>

text \<open>
  The part of the component's state that sending reads.  \<open>deviceName\<close> starts as
  \<open>Browser\<close>; the first effect stores what \<open>api.getDeviceName\<close> resolves to, and
  nothing else writes it.
\<close>

record chat =
  deviceName :: jsstring
  loading :: bool

definition chat_init :: chat where
  "chat_init = \<lparr>deviceName = lit ''Browser'', loading = False\<rparr>"

definition initDevice :: "URLSearchParams \<Rightarrow> chat \<Rightarrow> chat" where
  "initDevice params c = c\<lparr>deviceName := getDeviceName params\<rparr>"

text \<open>
  The request \<open>handleSendMessage\<close> makes, if any.  What it does with the answer
  (appending the new message, \<open>loading\<close>) is not needed to tell which request is made.
\<close>

definition handleSendMessage ::
  "chat \<Rightarrow> jsstring \<Rightarrow> message_type \<Rightarrow> js_file option \<Rightarrow> request option" where
  "handleSendMessage c content type file =
     (if type = Text then
        Some (sendMessage \<lparr>content_req = content, sender_req = deviceName c,
                type_req = type, filename_req = None\<rparr>)
      else case file of
             Some f \<Rightarrow> Some (uploadFile f (deviceName c))
           | None \<Rightarrow> None)"

section \<open>\<open>MessageInput.tsx\<close>\<close>

text \<open>A call \<open>onSendMessage(content, type, file)\<close>.\<close>

record send_call =
  content_arg :: jsstring
  type_arg :: message_type
  file_arg :: "js_file option"

text \<open>\<open>handleFileSelect\<close> takes \<open>'image' | 'file'\<close> only.\<close>

datatype upload_type = Image_upload | File_upload

definition message_type_of :: "upload_type \<Rightarrow> message_type" where
  "message_type_of t = (case t of Image_upload \<Rightarrow> Image | File_upload \<Rightarrow> File)"

definition handleSubmit :: "jsstring \<Rightarrow> bool \<Rightarrow> send_call option" where
  "handleSubmit message disabled =
     (if trim message \<noteq> [] \<and> \<not> disabled then
        (let content = trim message
         in Some \<lparr>content_arg = content, type_arg = Text, file_arg = None\<rparr>)
      else None)"

definition handleFileSelect :: "js_file list \<Rightarrow> upload_type \<Rightarrow> send_call option" where
  "handleFileSelect files type =
     (case files of
        [] \<Rightarrow> None
      | f # _ \<Rightarrow> Some \<lparr>content_arg = [], type_arg = message_type_of type, file_arg = Some f\<rparr>)"

record clipboard_item =
  type_item :: jsstring
  getAsFile :: "js_file option"

fun handlePaste :: "clipboard_item list \<Rightarrow> send_call option" where
  "handlePaste [] = None"
| "handlePaste (item # items) =
     (if indexOf (type_item item) (lit ''image'') \<noteq> - 1 then
        (case getAsFile item of
           Some f \<Rightarrow> Some \<lparr>content_arg = [], type_arg = Image, file_arg = Some f\<rparr>
         | None \<Rightarrow> handlePaste items)
      else handlePaste items)"

text \<open>
  What the user can do in the input, and the request it leads to: \<open>Chat\<close> passes
  \<open>handleSendMessage\<close> as \<open>onSendMessage\<close> and \<open>loading\<close> as \<open>disabled\<close>.
\<close>

datatype input_event =
  Submit jsstring | FileSelect "js_file list" upload_type | Paste "clipboard_item list"

fun input_call :: "chat \<Rightarrow> input_event \<Rightarrow> send_call option" where
  "input_call c (Submit message) = handleSubmit message (loading c)"
| "input_call c (FileSelect files type) = handleFileSelect files type"
| "input_call c (Paste items) = handlePaste items"

definition input_request :: "chat \<Rightarrow> input_event \<Rightarrow> request option" where
  "input_request c e =
     (case input_call c e of
        None \<Rightarrow> None
      | Some call \<Rightarrow> handleSendMessage c (content_arg call) (type_arg call) (file_arg call))"

section \<open>Notions used to state the properties\<close>

text \<open>
  The characters an escaped component is made of, and what it means for the result of
  \<open>encodeURIComponent\<close> to carry given octets: an error when there are none, else a
  string of such characters that reads back as the octets.
\<close>

definition safe :: "jsstring \<Rightarrow> bool" where
  "safe q \<longleftrightarrow> (\<forall>c \<in> set q. uriUnescaped c \<or> c = 0x25)"

definition agrees :: "js_error + jsstring \<Rightarrow> nat list option \<Rightarrow> bool" where
  "agrees r octets \<longleftrightarrow>
     (case octets of
        None \<Rightarrow> r = Inl URIError
      | Some bs \<Rightarrow>
          (case r of
             Inl e \<Rightarrow> False
           | Inr q \<Rightarrow> safe q \<and> percent_decode q = Some bs))"

text \<open>
  URI encoding in words: the string is read as code points (there are none when a
  surrogate is unpaired); an unreserved character is written as it is, every other code
  point as the escapes of its UTF-8 octets.
\<close>

fun codePoints :: "jsstring \<Rightarrow> nat list option" where
  "codePoints [] = Some []"
| "codePoints [c] =
     (if isHighSurrogate c \<or> isLowSurrogate c then None else Some [unat c])"
| "codePoints (c # d # ds) =
     (if isHighSurrogate c \<and> isLowSurrogate d
      then map_option ((#) (surrogatePair c d)) (codePoints ds)
      else if isHighSurrogate c \<or> isLowSurrogate c then None
      else map_option ((#) (unat c)) (codePoints (d # ds)))"

definition escapeCodePoint :: "nat \<Rightarrow> jsstring" where
  "escapeCodePoint cp =
     (if cp < 128 \<and> uriUnescaped (of_nat cp) then [of_nat cp]
      else concat (map escape (utf8 cp)))"

text \<open>The \<open>sender\<close> a request carries, in its JSON body or in its form.\<close>

definition sender_of :: "request \<Rightarrow> jsstring option" where
  "sender_of r =
     (case r of
        GET url \<Rightarrow> None
      | POST url (Json kvs) headers \<Rightarrow> map_of kvs (lit ''sender'')
      | POST url (FormData kvs) headers \<Rightarrow>
          (case map_of kvs (lit ''sender'') of
             Some (FormString v) \<Rightarrow> Some v
           | _ \<Rightarrow> None))"

section \<open>Properties of the polling effect\<close>

subsection \<open>What a settled poll changes\<close>

lemmas settled_defs = poll_settled_def idle_def setTimeout_def Let_def

lemma lastTimestamp_poll_settled:
  "lastTimestamp (poll_settled res s) =
     (case res of Resolved response \<Rightarrow> timestamp_resp response | Rejected \<Rightarrow> lastTimestamp s)"
  by (simp add: settled_defs split: poll_result.split option.split)

lemma isActive_poll_settled: "isActive (poll_settled res s) = isActive s"
  by (simp add: settled_defs split: poll_result.split option.split)

lemma polled_poll_settled: "polled (poll_settled res s) = polled s"
  by (simp add: settled_defs split: poll_result.split option.split)

lemma currentPollInterval_poll_settled:
  "currentPollInterval (poll_settled res s) = next_interval res (currentPollInterval s)"
  by (simp add: settled_defs next_interval_def INITIAL_INTERVAL_def MAX_INTERVAL_def
      IDLE_MULTIPLIER_def ERROR_MULTIPLIER_def split: poll_result.split option.split list.split)

lemma timers_poll_settled:
  "timers (poll_settled res s) =
     (if isActive s then timers s @ [(nextTimer s, currentPollInterval (poll_settled res s))]
      else timers s)"
  by (simp add: settled_defs split: poll_result.split option.split)

lemma messages_poll_settled:
  "messages (poll_settled res s) =
     (case res of
        Resolved response \<Rightarrow>
          (case messages_resp response of
             Some ms \<Rightarrow> mergeMessages ms (messages s)
           | None \<Rightarrow> messages s)
      | Rejected \<Rightarrow> messages s)"
  by (simp add: settled_defs mergeMessages_def split: poll_result.split option.split)

lemma mergeMessages_append:
  "mergeMessages ms prev = prev @ filter (\<lambda>m. id_msg m \<notin> id_msg ` set prev) ms"
  by (simp add: mergeMessages_def Let_def)

lemma mount_eval:
  "mount now =
     \<lparr>messages = [], pollInterval = None, lastTimestamp = now, isActive = True,
      currentPollInterval = 3000, timers = [], nextTimer = 1, awaited = [now],
      polled = [now]\<rparr>"
  by (simp add: mount_def poll_call_def INITIAL_INTERVAL_def)

subsection \<open>The cursor\<close>

text \<open>
  What a settled poll does to the cursor, in every state.  When an awaited poll resolves,
  \<open>lastTimestamp\<close> becomes the \<open>timestamp\<close> of the response, whatever its
  \<open>messages\<close> are; when it is rejected, \<open>lastTimestamp\<close> stays.  A poll made
  directly from there (by the timeout that this poll set, or, when the client is
  suspended, by the document becoming visible) passes that cursor to
  \<open>api.pollMessages\<close>.
\<close>

lemma cursor_after_poll:
  assumes "k < length (awaited s)"
  shows "lastTimestamp (step s (Settle k (Resolved response))) = timestamp_resp response
       \<and> lastTimestamp (step s (Settle k Rejected)) = lastTimestamp s
       \<and> polled (step (step s (Settle k res))
            (if isActive s then Timeout (nextTimer s) else VisibilityChange False))
         = polled s @ [lastTimestamp (step s (Settle k res))]"
proof -
  let ?s = "s\<lparr>awaited := take k (awaited s) @ drop (Suc k) (awaited s)\<rparr>"
  have st: "\<And>r. step s (Settle k r) = poll_settled r ?s"
    using assms by simp
  have a: "lastTimestamp (poll_settled (Resolved response) ?s) = timestamp_resp response"
    by (simp add: lastTimestamp_poll_settled)
  have b: "lastTimestamp (poll_settled Rejected ?s) = lastTimestamp s"
    by (simp add: lastTimestamp_poll_settled)
  have c: "polled (step (poll_settled res ?s)
            (if isActive s then Timeout (nextTimer s) else VisibilityChange False))
         = polled s @ [lastTimestamp (poll_settled res ?s)]"
  proof (cases "isActive s")
    case True
    then have "nextTimer s \<in> fst ` set (timers (poll_settled res ?s))"
      by (simp add: timers_poll_settled)
    with True show ?thesis
      by (simp add: poll_call_def clearTimeout_def isActive_poll_settled polled_poll_settled)
  next
    case False
    then show ?thesis
      by (simp add: handleVisibilityChange_def poll_call_def isActive_poll_settled
          polled_poll_settled)
  qed
  show ?thesis using a b c by (simp only: st)
qed

lemma cursor_after_poll_example:
  "0 < length (awaited (mount [0x74, 0x30]))
   \<and> lastTimestamp (step (mount [0x74, 0x30])
        (Settle 0 (Resolved \<lparr>messages_resp = Some [], timestamp_resp = [0x74, 0x31]\<rparr>)))
      = [0x74, 0x31]
   \<and> lastTimestamp (step (mount [0x74, 0x30]) (Settle 0 Rejected)) = [0x74, 0x30]
   \<and> polled (step (step (mount [0x74, 0x30]) (Settle 0 Rejected)) (Timeout 1))
      = [[0x74, 0x30], [0x74, 0x30]]"
proof -
  have h: "0 < length (awaited (mount [0x74, 0x30]))"
    by (simp add: mount_eval)
  from cursor_after_poll [OF h,
      of "\<lparr>messages_resp = Some [], timestamp_resp = [0x74, 0x31]\<rparr>" Rejected]
  show ?thesis
    using h by (simp add: mount_eval)
qed

text \<open>
  C1.  The next poll after a round-trip does not always pass the cursor of that
  round-trip.  A poll is awaited when the document is hidden and shown again, so a second
  poll starts with the same cursor.  The first resolves with \<open>t1\<close> and sets timeout 1,
  the second resolves with \<open>t2\<close>; when timeout 1 fires, the poll that follows the first
  round-trip passes \<open>t2\<close>, the one variable \<open>lastTimestamp\<close> being shared.  When the
  first poll is rejected instead, the poll that follows it passes \<open>t2\<close> too, not the
  cursor it had before.
\<close>

theorem overlapping_polls_share_cursor:
  "polled (run (mount [0x74, 0x30])
       [VisibilityChange True, VisibilityChange False,
        Settle 0 (Resolved \<lparr>messages_resp = Some [], timestamp_resp = [0x74, 0x31]\<rparr>),
        Settle 0 (Resolved \<lparr>messages_resp = Some [], timestamp_resp = [0x74, 0x32]\<rparr>),
        Timeout 1])
   = [[0x74, 0x30], [0x74, 0x30], [0x74, 0x32]]
   \<and> polled (run (mount [0x74, 0x30])
       [VisibilityChange True, VisibilityChange False,
        Settle 0 Rejected,
        Settle 0 (Resolved \<lparr>messages_resp = Some [], timestamp_resp = [0x74, 0x32]\<rparr>),
        Timeout 1])
   = [[0x74, 0x30], [0x74, 0x30], [0x74, 0x32]]"
  by (simp add: run_def mount_eval poll_call_def handleVisibilityChange_def clearTimeout_def
      poll_settled_def idle_def setTimeout_def INITIAL_INTERVAL_def MAX_INTERVAL_def
      IDLE_MULTIPLIER_def ERROR_MULTIPLIER_def)

subsection \<open>The interval\<close>

text \<open>
  C2.  When an awaited poll settles, the interval becomes 3000 if the response has at least
  one message, the smaller of 1.5 times the interval and 30000 if it resolved without a
  message, and the smaller of twice the interval and 30000 if it was rejected; an active
  client sets its next timeout with that delay.
\<close>

theorem next_interval_after_poll:
  assumes "k < length (awaited s)"
  shows "currentPollInterval (step s (Settle k res)) =
      (case res of
         Resolved response \<Rightarrow>
           (case messages_resp response of
              Some (m # ms) \<Rightarrow> 3000
            | _ \<Rightarrow> min (currentPollInterval s * (3 / 2)) 30000)
       | Rejected \<Rightarrow> min (currentPollInterval s * 2) 30000)
    \<and> timers (step s (Settle k res)) =
        (if isActive s
         then timers s @ [(nextTimer s, currentPollInterval (step s (Settle k res)))]
         else timers s)"
  using assms
  by (simp add: currentPollInterval_poll_settled timers_poll_settled next_interval_def)

theorem next_interval_after_poll_witness:
  "0 < length (awaited (mount []))
   \<and> currentPollInterval (step (mount [])
        (Settle 0 (Resolved \<lparr>messages_resp = Some [], timestamp_resp = []\<rparr>))) = 4500
   \<and> timers (step (mount [])
        (Settle 0 (Resolved \<lparr>messages_resp = Some [], timestamp_resp = []\<rparr>)))
      = [(1, 4500)]"
proof -
  have h: "0 < length (awaited (mount []))"
    by (simp add: mount_eval)
  from next_interval_after_poll [OF h,
      of "Resolved \<lparr>messages_resp = Some [], timestamp_resp = []\<rparr>"]
  show ?thesis
    using h by (simp add: mount_eval)
qed

lemma next_interval_bounds:
  "3000 \<le> i \<Longrightarrow> i \<le> 30000 \<Longrightarrow>
   3000 \<le> next_interval res i \<and> next_interval res i \<le> 30000"
  by (auto simp: next_interval_def split: poll_result.split option.split list.split)

lemma interval_ok_step: "interval_ok s \<Longrightarrow> interval_ok (step s e)"
proof (cases e)
  case (Settle k res)
  assume "interval_ok s"
  then show ?thesis using Settle
    by (simp add: interval_ok_def currentPollInterval_poll_settled next_interval_bounds)
next
  case (Timeout h)
  assume "interval_ok s"
  then show ?thesis using Timeout
    by (simp add: interval_ok_def poll_call_def clearTimeout_def)
next
  case (VisibilityChange hidden)
  assume "interval_ok s"
  then show ?thesis using VisibilityChange
    by (simp add: interval_ok_def handleVisibilityChange_def poll_call_def clearTimeout_def
        INITIAL_INTERVAL_def Let_def split: option.split)
qed

lemma interval_ok_run: "interval_ok s \<Longrightarrow> interval_ok (run s evs)"
  unfolding run_def by (induction evs arbitrary: s) (simp_all add: interval_ok_step)

lemma interval_ok_mount: "interval_ok (mount now)"
  by (simp add: interval_ok_def mount_eval)

text \<open>
  C4.  In every state the effect reaches from its start, by any sequence of settled polls
  (with messages, without, or rejected), fired timeouts and visibility changes, the
  interval is at least 3000 and at most 30000.
\<close>

theorem interval_within_bounds:
  "3000 \<le> currentPollInterval (run (mount now) evs)
   \<and> currentPollInterval (run (mount now) evs) \<le> 30000"
  using interval_ok_run [OF interval_ok_mount, of now evs] by (simp add: interval_ok_def)

theorem interval_within_bounds_witness:
  "currentPollInterval (run (mount []) [Settle 0 Rejected, Timeout 1, Settle 0 Rejected])
     = 12000
   \<and> 3000 \<le> currentPollInterval
        (run (mount []) [Settle 0 Rejected, Timeout 1, Settle 0 Rejected])
   \<and> currentPollInterval (run (mount []) [Settle 0 Rejected, Timeout 1, Settle 0 Rejected])
      \<le> 30000"
proof -
  have "currentPollInterval (run (mount []) [Settle 0 Rejected, Timeout 1, Settle 0 Rejected])
     = 12000"
    by (simp add: run_def mount_eval poll_settled_def setTimeout_def clearTimeout_def
        poll_call_def ERROR_MULTIPLIER_def MAX_INTERVAL_def)
  with interval_within_bounds [of "[]" "[Settle 0 Rejected, Timeout 1, Settle 0 Rejected]"]
  show ?thesis by simp
qed

lemma next_interval_values:
  "i \<in> set interval_values \<Longrightarrow> next_interval res i \<in> set interval_values"
  unfolding interval_values_def next_interval_def
  by (auto split: poll_result.split option.split list.split)

lemma interval_values_step:
  "currentPollInterval s \<in> set interval_values \<Longrightarrow>
   currentPollInterval (step s e) \<in> set interval_values"
proof (cases e)
  case (Settle k res)
  assume "currentPollInterval s \<in> set interval_values"
  with Settle show ?thesis
    by (simp add: currentPollInterval_poll_settled next_interval_values)
next
  case (Timeout h)
  assume "currentPollInterval s \<in> set interval_values"
  with Timeout show ?thesis
    by (simp add: poll_call_def clearTimeout_def)
next
  case (VisibilityChange hidden)
  assume a: "currentPollInterval s \<in> set interval_values"
  have "(3000::rat) \<in> set interval_values" by (simp add: interval_values_def)
  with a VisibilityChange show ?thesis
    by (simp add: handleVisibilityChange_def poll_call_def clearTimeout_def
        INITIAL_INTERVAL_def Let_def split: option.split)
qed

lemma interval_values_run:
  "currentPollInterval (run (mount now) evs) \<in> set interval_values"
proof -
  have "currentPollInterval s \<in> set interval_values \<Longrightarrow>
        currentPollInterval (foldl step s evs) \<in> set interval_values" for s
    by (induction evs arbitrary: s) (simp_all add: interval_values_step)
  moreover have "currentPollInterval (mount now) \<in> set interval_values"
    by (simp add: mount_eval interval_values_def)
  ultimately show ?thesis by (simp add: run_def)
qed

lemma interval_values_exact:
  "map (\<lambda>x. x * 4) interval_values =
     map rat_of_nat [12000, 18000, 24000, 27000, 36000, 40500, 48000, 54000, 60750, 72000,
       81000, 91125, 96000, 108000, 120000]"
  by (simp add: interval_values_def)

subsection \<open>Merging a response\<close>

text \<open>
  C5.  A settled poll leaves the messages already in the list as they are and in their
  order, and appends only messages of the response whose \<open>id\<close> no message of the list
  has; so for every \<open>id\<close> in the list, the number of entries with that \<open>id\<close> is the
  same after the merge.
\<close>

theorem merge_appends_only_new_ids:
  "\<exists>new. messages (poll_settled res s) = messages s @ new
        \<and> set new \<subseteq> (case res of
              Resolved response \<Rightarrow>
                (case messages_resp response of Some ms \<Rightarrow> set ms | None \<Rightarrow> {})
            | Rejected \<Rightarrow> {})
        \<and> (\<forall>m \<in> set new. id_msg m \<notin> id_msg ` set (messages s))
        \<and> (\<forall>i \<in> id_msg ` set (messages s).
              length (filter (\<lambda>m. id_msg m = i) (messages (poll_settled res s)))
              = length (filter (\<lambda>m. id_msg m = i) (messages s)))"
  by (auto simp: messages_poll_settled mergeMessages_append filter_empty_conv
      split: poll_result.split option.split)

theorem merge_appends_only_new_ids_witness:
  "length (filter (\<lambda>m. id_msg m = [0x31])
     (messages (poll_settled
        (Resolved \<lparr>messages_resp =
            Some [message.make [0x31] [] [] [] Text None None None,
                  message.make [0x32] [] [] [] Text None None None],
          timestamp_resp = []\<rparr>)
        ((mount [])\<lparr>messages := [message.make [0x31] [0x61] [] [] Text None None None]\<rparr>))))
   = 1"
proof -
  let ?s = "(mount [])\<lparr>messages := [message.make [0x31] [0x61] [] [] Text None None None]\<rparr>"
  let ?res = "Resolved \<lparr>messages_resp =
            Some [message.make [0x31] [] [] [] Text None None None,
                  message.make [0x32] [] [] [] Text None None None],
          timestamp_resp = []\<rparr>"
  from merge_appends_only_new_ids [of ?res ?s]
  have "\<forall>i \<in> id_msg ` set (messages ?s).
          length (filter (\<lambda>m. id_msg m = i) (messages (poll_settled ?res ?s)))
          = length (filter (\<lambda>m. id_msg m = i) (messages ?s))"
    by blast
  then show ?thesis
    by (simp add: message.make_def)
qed

subsection \<open>Visibility\<close>

lemma not_active_step:
  "\<not> isActive s \<Longrightarrow> e \<noteq> VisibilityChange False \<Longrightarrow>
   \<not> isActive (step s e) \<and> polled (step s e) = polled s"
  by (cases e)
     (auto simp: isActive_poll_settled polled_poll_settled poll_call_def clearTimeout_def
        handleVisibilityChange_def Let_def split: option.split)

lemma not_active_run:
  "\<not> isActive s \<Longrightarrow> VisibilityChange False \<notin> set evs \<Longrightarrow>
   \<not> isActive (run s evs) \<and> polled (run s evs) = polled s"
  unfolding run_def
proof (induction evs arbitrary: s)
  case Nil
  then show ?case by simp
next
  case (Cons e evs)
  from Cons.prems have e: "e \<noteq> VisibilityChange False"
    and evs: "VisibilityChange False \<notin> set evs" by auto
  from not_active_step [OF Cons.prems(1) e]
  have "\<not> isActive (step s e)" and p: "polled (step s e) = polled s" by simp_all
  from Cons.IH [OF this(1) evs] p show ?case by simp
qed

lemma hidden_eval:
  "handleVisibilityChange True s =
     s\<lparr>isActive := False,
       timers := (case pollInterval s of None \<Rightarrow> timers s
                  | Some h \<Rightarrow> filter (\<lambda>t. fst t \<noteq> h) (timers s)),
       pollInterval := None\<rparr>"
  by (simp add: handleVisibilityChange_def clearTimeout_def Let_def split: option.split)

lemma visible_eval:
  "\<not> isActive s \<Longrightarrow>
   handleVisibilityChange False s =
     s\<lparr>isActive := True, currentPollInterval := 3000,
       awaited := awaited s @ [lastTimestamp s], polled := polled s @ [lastTimestamp s]\<rparr>"
  by (simp add: handleVisibilityChange_def poll_call_def INITIAL_INTERVAL_def)

text \<open>
  What holds of suspension under every interleaving.  When the document becomes hidden,
  the client is suspended and the timeout whose handle \<open>pollInterval\<close> holds is
  cancelled; as long as the document does not become visible, whatever settles or fires,
  no call of \<open>api.pollMessages\<close> is made; when it becomes visible again, one call is
  made at once, with the current cursor, and the interval is 3000 again.
\<close>

lemma hidden_suspends_visible_resumes:
  assumes "VisibilityChange False \<notin> set evs"
  shows "\<not> isActive (step s (VisibilityChange True))
    \<and> pollInterval (step s (VisibilityChange True)) = None
    \<and> (case pollInterval s of None \<Rightarrow> True
        | Some h \<Rightarrow> h \<notin> fst ` set (timers (step s (VisibilityChange True))))
    \<and> polled (run (step s (VisibilityChange True)) evs) = polled s
    \<and> polled (step (run (step s (VisibilityChange True)) evs) (VisibilityChange False))
        = polled s @ [lastTimestamp (run (step s (VisibilityChange True)) evs)]
    \<and> currentPollInterval
        (step (run (step s (VisibilityChange True)) evs) (VisibilityChange False)) = 3000
    \<and> isActive (step (run (step s (VisibilityChange True)) evs) (VisibilityChange False))"
proof -
  let ?h = "step s (VisibilityChange True)"
  have h: "\<not> isActive ?h" and p: "polled ?h = polled s" and i: "pollInterval ?h = None"
    by (simp_all add: hidden_eval)
  have t: "case pollInterval s of None \<Rightarrow> True | Some h \<Rightarrow> h \<notin> fst ` set (timers ?h)"
    by (auto simp: hidden_eval split: option.split)
  from not_active_run [OF h assms] p
  have r: "\<not> isActive (run ?h evs)" and q: "polled (run ?h evs) = polled s" by simp_all
  from r q have v: "polled (step (run ?h evs) (VisibilityChange False))
        = polled s @ [lastTimestamp (run ?h evs)]"
    "currentPollInterval (step (run ?h evs) (VisibilityChange False)) = 3000"
    "isActive (step (run ?h evs) (VisibilityChange False))"
    by (simp_all add: visible_eval)
  from h i t q v show ?thesis by simp
qed

lemma hidden_suspends_visible_resumes_example:
  "VisibilityChange False \<notin> set [Settle 0 Rejected, VisibilityChange True]
   \<and> polled (run (step (mount []) (VisibilityChange True))
        [Settle 0 Rejected, VisibilityChange True]) = polled (mount [])
   \<and> currentPollInterval
        (step (run (step (mount []) (VisibilityChange True))
                 [Settle 0 Rejected, VisibilityChange True])
           (VisibilityChange False)) = 3000"
proof -
  have h: "VisibilityChange False \<notin> set [Settle 0 Rejected, VisibilityChange True]"
    by simp
  from hidden_suspends_visible_resumes [OF h, of "mount []"] h
  show ?thesis by simp
qed

text \<open>
  C3.  The code does not cancel every pending timer when the document becomes hidden.  A
  poll is awaited when the document is hidden and shown again, so a second poll starts;
  both resolve and each sets a timeout, the second handle replacing the first in
  \<open>pollInterval\<close>.  When the document is hidden again only the second timeout is
  cleared: the first is still pending.  When the document is shown once more, the poll
  made at once and the poll of the timeout left over are awaited together: two polling
  loops run from then on.
\<close>

theorem hidden_leaves_timer_pending:
  "timers (step (run (mount [0x74, 0x30])
       [VisibilityChange True, VisibilityChange False,
        Settle 0 (Resolved \<lparr>messages_resp = Some [], timestamp_resp = [0x74, 0x31]\<rparr>),
        Settle 0 (Resolved \<lparr>messages_resp = Some [], timestamp_resp = [0x74, 0x32]\<rparr>)])
     (VisibilityChange True))
   = [(1, 4500)]
   \<and> awaited (run (mount [0x74, 0x30])
       [VisibilityChange True, VisibilityChange False,
        Settle 0 (Resolved \<lparr>messages_resp = Some [], timestamp_resp = [0x74, 0x31]\<rparr>),
        Settle 0 (Resolved \<lparr>messages_resp = Some [], timestamp_resp = [0x74, 0x32]\<rparr>),
        VisibilityChange True, VisibilityChange False, Timeout 1])
   = [[0x74, 0x32], [0x74, 0x32]]"
  by (simp add: run_def mount_eval poll_call_def handleVisibilityChange_def clearTimeout_def
      poll_settled_def idle_def setTimeout_def INITIAL_INTERVAL_def MAX_INTERVAL_def
      IDLE_MULTIPLIER_def)

section \<open>Properties of the platform functions\<close>

subsection \<open>Escaping\<close>

lemma unat_hexDigit: "n < 16 \<Longrightarrow> unat (hexDigit n) = (if n < 10 then 48 + n else 55 + n)"
proof -
  assume n: "n < 16"
  have "unat (of_nat (48 + n) :: 16 word) = 48 + n" "unat (of_nat (55 + n) :: 16 word) = 55 + n"
    using n by (simp_all only: unat_of_nat) simp_all
  then show ?thesis by (simp only: hexDigit_def split: if_split) simp
qed

lemma unhex_hexDigit: "n < 16 \<Longrightarrow> unhex (hexDigit n) = Some n"
  by (simp add: unhex_def unat_hexDigit Let_def)

lemma uriUnescaped_hexDigit: "n < 16 \<Longrightarrow> uriUnescaped (hexDigit n)"
  by (auto simp add: uriUnescaped_def unat_hexDigit Let_def)

lemma uriUnescaped_not_percent: "uriUnescaped c \<Longrightarrow> c \<noteq> 0x25"
  by (auto simp: uriUnescaped_def Let_def)

lemma uriUnescaped_ascii:
  "uriUnescaped c \<Longrightarrow> utf8 (unat c) = [unat c] \<and> \<not> isHighSurrogate c \<and> \<not> isLowSurrogate c"
  by (auto simp: uriUnescaped_def Let_def utf8_def isHighSurrogate_def isLowSurrogate_def)

lemma safe_escape: "b < 256 \<Longrightarrow> safe (escape b)"
  by (simp add: safe_def escape_def uriUnescaped_hexDigit)

lemma percent_decode_escape:
  "b < 256 \<Longrightarrow> percent_decode (escape b @ q) = map_option ((#) b) (percent_decode q)"
  by (simp add: escape_def unhex_hexDigit)

lemma percent_decode_escapes:
  "\<forall>b \<in> set bs. b < 256 \<Longrightarrow>
   percent_decode (concat (map escape bs) @ q) = map_option ((@) bs) (percent_decode q)"
proof (induction bs)
  case Nil
  show ?case by (simp add: option.map_ident)
next
  case (Cons b bs)
  then show ?case
    by (simp add: percent_decode_escape option.map_comp comp_def del: percent_decode.simps)
qed

lemma safe_escapes: "\<forall>b \<in> set bs. b < 256 \<Longrightarrow> safe (concat (map escape bs))"
  using safe_escape by (auto simp: safe_def)

lemma utf8_octets: "cp < 0x110000 \<Longrightarrow> \<forall>b \<in> set (utf8 cp). b < 256"
  by (auto simp: utf8_def)

lemma unat16: "unat (c :: 16 word) < 0x110000"
  using unsigned_less [of c, where 'a = nat] by simp

lemma surrogatePair_range:
  "isHighSurrogate c \<Longrightarrow> isLowSurrogate d \<Longrightarrow> surrogatePair c d < 0x110000"
  unfolding isHighSurrogate_def isLowSurrogate_def surrogatePair_def by linarith

lemma agrees_Nil: "agrees (Inr []) (Some [])"
  by (simp add: agrees_def safe_def)

lemma agrees_error: "agrees (Inl URIError) None"
  by (simp add: agrees_def)

lemma agrees_escaped:
  assumes "\<forall>b \<in> set bs. b < 256" and "agrees r octets"
  shows "agrees (prepend (concat (map escape bs)) r) (map_option ((@) bs) octets)"
  using assms(2) safe_escapes [OF assms(1)] percent_decode_escapes [OF assms(1)]
  by (auto simp: agrees_def prepend_def safe_def split: option.splits sum.splits)

lemma agrees_unescaped:
  assumes "uriUnescaped c" and "agrees r octets"
  shows "agrees (prepend [c] r) (map_option ((@) (utf8 (unat c))) octets)"
  using assms uriUnescaped_not_percent [OF assms(1)] uriUnescaped_ascii [OF assms(1)]
  by (auto simp: agrees_def prepend_def safe_def split: option.splits sum.splits)

lemma encodeURIComponent_single:
  "encodeURIComponent [c] =
     (if uriUnescaped c then prepend [c] (encodeURIComponent [])
      else if isHighSurrogate c \<or> isLowSurrogate c then Inl URIError
      else prepend (concat (map escape (utf8 (unat c)))) (encodeURIComponent []))"
  by (simp add: prepend_def)

lemma utf8_string_single:
  "utf8_string [c] =
     (if isHighSurrogate c \<or> isLowSurrogate c then None
      else map_option ((@) (utf8 (unat c))) (utf8_string []))"
  by simp

lemma encodes_all: "agrees (encodeURIComponent s) (utf8_string s)"
proof (induction s rule: encodeURIComponent.induct)
  case 1
  show ?case by (simp add: agrees_Nil)
next
  case (2 c)
  have e: "agrees (encodeURIComponent []) (utf8_string [])" by (simp add: agrees_Nil)
  show ?case
  proof (cases "uriUnescaped c")
    case True
    with uriUnescaped_ascii [OF True] agrees_unescaped [OF True e] show ?thesis
      by (simp only: encodeURIComponent_single utf8_string_single if_True if_False simp_thms)
  next
    case False
    show ?thesis
    proof (cases "isHighSurrogate c \<or> isLowSurrogate c")
      case True
      with False agrees_error show ?thesis
        by (simp only: encodeURIComponent_single utf8_string_single if_True if_False)
    next
      case F2: False
      with False agrees_escaped [OF utf8_octets [OF unat16 [of c]] e]
      show ?thesis
        by (simp only: encodeURIComponent_single utf8_string_single if_True if_False)
    qed
  qed
next
  case (3 c d ds)
  show ?case
  proof (cases "uriUnescaped c")
    case True
    with uriUnescaped_ascii [OF True] agrees_unescaped [OF True "3.IH"(1) [OF True]]
    show ?thesis
      by (simp only: encodeURIComponent.simps utf8_string.simps if_True if_False simp_thms)
  next
    case False
    show ?thesis
    proof (cases "isLowSurrogate c")
      case True
      with False agrees_error show ?thesis
        by (simp only: encodeURIComponent.simps utf8_string.simps if_True if_False)
    next
      case nl: False
      show ?thesis
      proof (cases "isHighSurrogate c")
        case True
        show ?thesis
        proof (cases "isLowSurrogate d")
          case dl: True
          from agrees_escaped [OF utf8_octets [OF surrogatePair_range [OF True dl]]
              "3.IH"(2) [OF False nl True dl]] False nl True dl
          show ?thesis
            by (simp only: encodeURIComponent.simps utf8_string.simps if_True if_False)
        next
          case False
          with \<open>\<not> uriUnescaped c\<close> nl True agrees_error show ?thesis
            by (simp only: encodeURIComponent.simps utf8_string.simps if_True if_False)
        qed
      next
        case nh: False
        from agrees_escaped [OF utf8_octets [OF unat16 [of c]] "3.IH"(3) [OF False nl nh]]
          False nl nh
        show ?thesis
          by (simp only: encodeURIComponent.simps utf8_string.simps if_True if_False)
      qed
    qed
  qed
qed

lemma surrogates_disjoint: "isHighSurrogate c \<Longrightarrow> \<not> isLowSurrogate c"
  by (simp add: isHighSurrogate_def isLowSurrogate_def)

lemma utf8_string_codePoints:
  "utf8_string s = map_option (\<lambda>cps. concat (map utf8 cps)) (codePoints s)"
  by (induction s rule: codePoints.induct)
     (auto simp: option.map_comp comp_def surrogates_disjoint split: option.splits)

lemma escapeCodePoint_unescaped:
  "uriUnescaped c \<Longrightarrow> escapeCodePoint (unat c) = [c]"
  by (auto simp: escapeCodePoint_def uriUnescaped_def Let_def)

lemma escapeCodePoint_escaped:
  "\<not> uriUnescaped c \<Longrightarrow> escapeCodePoint (unat c) = concat (map escape (utf8 (unat c)))"
  by (simp add: escapeCodePoint_def)

lemma escapeCodePoint_pair:
  "escapeCodePoint (surrogatePair c d) = concat (map escape (utf8 (surrogatePair c d)))"
  by (simp add: escapeCodePoint_def surrogatePair_def)

lemma encodeURIComponent_codePoints:
  "encodeURIComponent s =
     (case codePoints s of
        None \<Rightarrow> Inl URIError
      | Some cps \<Rightarrow> Inr (concat (map escapeCodePoint cps)))"
proof (induction s rule: encodeURIComponent.induct)
  case 1
  show ?case by simp
next
  case (2 c)
  show ?case
    using uriUnescaped_ascii [of c]
    by (auto simp: escapeCodePoint_unescaped escapeCodePoint_escaped)
next
  case (3 c d ds)
  show ?case
  proof (cases "uriUnescaped c")
    case True
    with "3.IH"(1) uriUnescaped_ascii [OF True] show ?thesis
      by (simp add: escapeCodePoint_unescaped prepend_def split: option.split)
  next
    case False
    show ?thesis
    proof (cases "isLowSurrogate c")
      case True
      with False show ?thesis by (auto dest: surrogates_disjoint)
    next
      case nl: False
      show ?thesis
      proof (cases "isHighSurrogate c")
        case True
        show ?thesis
        proof (cases "isLowSurrogate d")
          case dl: True
          with False nl True "3.IH"(2) show ?thesis
            by (simp add: escapeCodePoint_pair prepend_def split: option.split)
        next
          case False
          with \<open>\<not> uriUnescaped c\<close> nl True show ?thesis by simp
        qed
      next
        case nh: False
        with False nl "3.IH"(3) show ?thesis
          by (simp add: escapeCodePoint_escaped prepend_def split: option.split)
      qed
    qed
  qed
qed

lemma hexDigits: "map hexDigit [0, 1, 2, 3, 4, 5, 6, 7, 8, 9, 10, 11, 12, 13, 14, 15]
   = lit ''0123456789ABCDEF''"
  by (simp add: hexDigit_def lit_def)

subsection \<open>Trimming and searching\<close>

lemma startsWith_iff: "startsWith s p \<longleftrightarrow> (\<exists>post. s = p @ post)"
  by (induction s p rule: startsWith.induct) auto

lemma indexOf_from_found:
  "0 \<le> k \<Longrightarrow> indexOf_from k s p \<noteq> - 1 \<longleftrightarrow> (\<exists>pre post. s = pre @ p @ post)"
proof (induction s arbitrary: k)
  case Nil
  then show ?case by auto
next
  case (Cons c cs)
  show ?case
  proof (cases "startsWith (c # cs) p")
    case True
    then obtain post where "c # cs = p @ post" by (auto simp: startsWith_iff)
    then have "c # cs = [] @ p @ post" by simp
    then have "\<exists>pre post. c # cs = pre @ p @ post" by blast
    with True Cons.prems show ?thesis by simp
  next
    case False
    have "(\<exists>pre post. c # cs = pre @ p @ post) \<longleftrightarrow> (\<exists>pre post. cs = pre @ p @ post)"
    proof
      assume "\<exists>pre post. c # cs = pre @ p @ post"
      then obtain pre post where e: "c # cs = pre @ p @ post" by blast
      show "\<exists>pre post. cs = pre @ p @ post"
      proof (cases pre)
        case Nil
        with e False show ?thesis by (auto simp: startsWith_iff)
      next
        case (Cons a pre')
        with e have "cs = pre' @ p @ post" by simp
        then show ?thesis by blast
      qed
    next
      assume "\<exists>pre post. cs = pre @ p @ post"
      then obtain pre post where "cs = pre @ p @ post" by blast
      then have "c # cs = (c # pre) @ p @ post" by simp
      then show "\<exists>pre post. c # cs = pre @ p @ post" by blast
    qed
    moreover from Cons.prems have "0 \<le> k + 1" by simp
    ultimately show ?thesis using False Cons.IH [of "k + 1"] by simp
  qed
qed

lemma indexOf_found: "indexOf s p \<noteq> - 1 \<longleftrightarrow> (\<exists>pre post. s = pre @ p @ post)"
  unfolding indexOf_def by (rule indexOf_from_found) simp

lemma trim_not_blank:
  assumes "trim s \<noteq> []"
  shows "\<not> isWhiteSpace (hd (trim s))" and "\<not> isWhiteSpace (last (trim s))"
proof -
  define t where "t = dropWhile isWhiteSpace s"
  define u where "u = dropWhile isWhiteSpace (rev t)"
  have tr: "trim s = rev u" by (simp add: trim_def t_def u_def)
  with assms have u: "u \<noteq> []" by simp
  then have "\<not> isWhiteSpace (hd u)" unfolding u_def by (rule hd_dropWhile)
  with u show "\<not> isWhiteSpace (last (trim s))"
    by (simp add: tr last_rev)
  from u have t: "t \<noteq> []" by (auto simp: u_def)
  then have ht: "\<not> isWhiteSpace (hd t)" unfolding t_def by (rule hd_dropWhile)
  from t obtain a as where tas: "t = a # as" by (cases t) auto
  with ht have na: "\<not> isWhiteSpace a" by simp
  have "u = dropWhile isWhiteSpace (rev as @ [a])" by (simp add: u_def tas)
  with na have "u = dropWhile isWhiteSpace (rev as) @ [a] \<or> u = [a]"
    by (cases "\<forall>x\<in>set (rev as). isWhiteSpace x") (auto simp: dropWhile_append)
  then have "hd (rev u) = a" by auto
  with na show "\<not> isWhiteSpace (hd (trim s))" by (simp add: tr)
qed

lemma trim_decompose:
  "\<exists>pre post. s = pre @ trim s @ post
     \<and> (\<forall>c \<in> set pre. isWhiteSpace c) \<and> (\<forall>c \<in> set post. isWhiteSpace c)"
proof -
  define t where "t = dropWhile isWhiteSpace s"
  have s: "s = takeWhile isWhiteSpace s @ t" by (simp add: t_def)
  have "trim s @ rev (takeWhile isWhiteSpace (rev t))
      = rev (takeWhile isWhiteSpace (rev t) @ dropWhile isWhiteSpace (rev t))"
    by (simp only: trim_def t_def rev_append)
  also have "\<dots> = rev (rev t)" by (simp only: takeWhile_dropWhile_id)
  finally have t: "t = trim s @ rev (takeWhile isWhiteSpace (rev t))" by simp
  have "s = takeWhile isWhiteSpace s @ trim s @ rev (takeWhile isWhiteSpace (rev t))"
    using s t by simp
  moreover have "\<forall>c \<in> set (takeWhile isWhiteSpace s). isWhiteSpace c"
    by (auto dest: set_takeWhileD)
  moreover have "\<forall>c \<in> set (rev (takeWhile isWhiteSpace (rev t))). isWhiteSpace c"
    by (auto dest: set_takeWhileD)
  ultimately show ?thesis by blast
qed

lemma not_blank: "s \<noteq> [] \<Longrightarrow> \<not> isWhiteSpace (hd s) \<Longrightarrow> \<not> (\<forall>ch \<in> set s. isWhiteSpace ch)"
  by (cases s) auto

lemma get_find:
  "get params name = map_option snd (find (\<lambda>p. fst p = name) params)"
  by (induction params name rule: get.induct) simp_all

section \<open>Properties of the requests\<close>

lemma urls:
  "API_BASE @ lit ''/messages'' = lit ''/api/messages''"
  "API_BASE @ lit ''/upload'' = lit ''/api/upload''"
  "API_BASE @ lit ''/messages/poll?since='' @ q = lit ''/api/messages/poll?since='' @ q"
  by (simp_all add: API_BASE_def lit_def)

lemma lit_keys:
  "lit ''content'' \<noteq> lit ''sender''" "lit ''file'' \<noteq> lit ''sender''"
  "lit ''sender'' \<noteq> lit ''content''" "lit ''sender'' \<noteq> lit ''file''"
  by (simp_all add: lit_def)

lemma handleSendMessage_eval:
  "handleSendMessage c content type file =
     (if type = Text then
        Some (POST (lit ''/api/messages'')
                (Json [(lit ''content'', content), (lit ''sender'', deviceName c),
                       (lit ''type'', lit ''text'')]) [])
      else case file of
             Some f \<Rightarrow>
               Some (POST (lit ''/api/upload'')
                       (FormData [(lit ''file'', FormFile f),
                                  (lit ''sender'', FormString (deviceName c))])
                       [(lit ''Content-Type'', lit ''multipart/form-data'')])
           | None \<Rightarrow> None)"
  by (simp add: handleSendMessage_def sendMessage_def uploadFile_def json_of_request_def
      string_of_type_def urls split: option.split)

lemma sender_of_handleSendMessage:
  "handleSendMessage c content type file = Some r \<Longrightarrow> sender_of r = Some (deviceName c)"
  by (auto simp: handleSendMessage_eval sender_of_def lit_keys split: if_splits option.splits)

lemma handlePaste_find:
  "handlePaste items =
     (case find (\<lambda>item. indexOf (type_item item) (lit ''image'') \<noteq> - 1
                          \<and> getAsFile item \<noteq> None) items of
        None \<Rightarrow> None
      | Some item \<Rightarrow> Some \<lparr>content_arg = [], type_arg = Image, file_arg = getAsFile item\<rparr>)"
  by (induction items) (auto split: option.split)

lemma input_call_Text:
  assumes "input_call c e = Some call" and "type_arg call = Text"
  shows "\<exists>m. e = Submit m \<and> content_arg call = trim m \<and> trim m \<noteq> [] \<and> \<not> loading c"
proof (cases e)
  case (Submit m)
  with assms show ?thesis
    by (auto simp: handleSubmit_def Let_def split: if_splits)
next
  case (FileSelect files t)
  with assms show ?thesis
    by (cases t) (auto simp: handleFileSelect_def message_type_of_def split: list.splits)
next
  case (Paste items)
  with assms show ?thesis
    by (auto simp: handlePaste_find split: option.splits)
qed

subsection \<open>Which request a message becomes\<close>

text \<open>
  C6.  \<open>handleSendMessage\<close> posts the JSON object with \<open>content\<close>, \<open>sender\<close> and
  \<open>type\<close> to \<open>/api/messages\<close> exactly when the type is \<open>text\<close>; for another type
  with a file it posts the multipart form with the two fields \<open>file\<close> and \<open>sender\<close>
  to \<open>/api/upload\<close>; for another type without a file it sends nothing.
\<close>

theorem send_request_by_type:
  "handleSendMessage c content type file =
     (if type = Text then
        Some (POST (lit ''/api/messages'')
                (Json [(lit ''content'', content), (lit ''sender'', deviceName c),
                       (lit ''type'', lit ''text'')]) [])
      else case file of
             Some f \<Rightarrow>
               Some (POST (lit ''/api/upload'')
                       (FormData [(lit ''file'', FormFile f),
                                  (lit ''sender'', FormString (deviceName c))])
                       [(lit ''Content-Type'', lit ''multipart/form-data'')])
           | None \<Rightarrow> None)"
  by (rule handleSendMessage_eval)

theorem send_request_by_type_witness:
  "handleSendMessage chat_init [0x68] Text None =
     Some (POST (lit ''/api/messages'')
             (Json [(lit ''content'', [0x68]), (lit ''sender'', lit ''Browser''),
                    (lit ''type'', lit ''text'')]) [])
   \<and> handleSendMessage chat_init [] Image None = None"
  using send_request_by_type [of chat_init "[0x68]" Text None]
    send_request_by_type [of chat_init "[]" Image None]
  by (simp add: chat_init_def)

subsection \<open>The poll request\<close>

text \<open>
  C7, as the code has it.  For a cursor without an unpaired surrogate, \<open>api.pollMessages\<close>
  makes a GET of \<open>/api/messages/poll?since=\<close> followed by the cursor URI-encoded: each
  unreserved character as it is, every other code point as the escapes of its UTF-8
  octets, an escape being \<open>%\<close> and two hexadecimal digits in upper case; this parameter
  is made of unreserved characters and \<open>%\<close> only and reads back as the UTF-8 octets of
  the cursor.  For a cursor with an unpaired surrogate \<open>encodeURIComponent\<close> throws and
  no request is made.  What the call resolves to is read, without a check, as the object
  with \<open>messages\<close> and \<open>timestamp\<close>: \<open>poll\<close> merges the first into the list and takes
  the second as the next cursor.
\<close>

theorem poll_request_encodes_cursor:
  "(case codePoints since of
      None \<Rightarrow> pollMessages since = Inl URIError
    | Some cps \<Rightarrow>
        pollMessages since =
          Inr (GET (lit ''/api/messages/poll?since='' @ concat (map escapeCodePoint cps)))
        \<and> (\<forall>c \<in> set (concat (map escapeCodePoint cps)). uriUnescaped c \<or> c = 0x25)
        \<and> percent_decode (concat (map escapeCodePoint cps)) = Some (concat (map utf8 cps)))
   \<and> (\<forall>octet. escape octet = [0x25, hexDigit (octet div 16), hexDigit (octet mod 16)])
   \<and> map hexDigit [0, 1, 2, 3, 4, 5, 6, 7, 8, 9, 10, 11, 12, 13, 14, 15]
       = lit ''0123456789ABCDEF''
   \<and> lastTimestamp (poll_settled (Resolved response) s) = timestamp_resp response
   \<and> messages (poll_settled (Resolved response) s) =
       (case messages_resp response of
          None \<Rightarrow> messages s
        | Some ms \<Rightarrow> mergeMessages ms (messages s))"
proof -
  have a: "case codePoints since of
      None \<Rightarrow> pollMessages since = Inl URIError
    | Some cps \<Rightarrow>
        pollMessages since =
          Inr (GET (lit ''/api/messages/poll?since='' @ concat (map escapeCodePoint cps)))
        \<and> (\<forall>c \<in> set (concat (map escapeCodePoint cps)). uriUnescaped c \<or> c = 0x25)
        \<and> percent_decode (concat (map escapeCodePoint cps)) = Some (concat (map utf8 cps))"
  proof (cases "codePoints since")
    case None
    then show ?thesis
      by (simp add: pollMessages_def encodeURIComponent_codePoints)
  next
    case (Some cps)
    then have e: "encodeURIComponent since = Inr (concat (map escapeCodePoint cps))"
      by (simp add: encodeURIComponent_codePoints)
    from Some have u: "utf8_string since = Some (concat (map utf8 cps))"
      by (simp add: utf8_string_codePoints)
    from encodes_all [of since] e u
    have "safe (concat (map escapeCodePoint cps))"
      and "percent_decode (concat (map escapeCodePoint cps)) = Some (concat (map utf8 cps))"
      by (simp_all add: agrees_def)
    with Some e show ?thesis
      by (simp add: pollMessages_def urls safe_def)
  qed
  have b: "\<forall>octet. escape octet = [0x25, hexDigit (octet div 16), hexDigit (octet mod 16)]"
    by (simp add: escape_def)
  from a b hexDigits show ?thesis
    by (simp only: lastTimestamp_poll_settled messages_poll_settled poll_result.case simp_thms)
qed

theorem poll_request_encodes_cursor_witness:
  "pollMessages (lit ''0:0'') = Inr (GET (lit ''/api/messages/poll?since=0%3A0''))
   \<and> pollMessages [0x41, 0xE9] = Inr (GET (lit ''/api/messages/poll?since=A%C3%A9''))"
proof -
  have c: "codePoints (lit ''0:0'') = Some [48, 58, 48]" "codePoints [0x41, 0xE9] = Some [65, 233]"
    by (simp_all add: lit_def isHighSurrogate_def isLowSurrogate_def)
  have e: "escapeCodePoint 48 = lit ''0''" "escapeCodePoint 58 = lit ''%3A''"
    "escapeCodePoint 65 = lit ''A''" "escapeCodePoint 233 = lit ''%C3%A9''"
    by (simp_all add: escapeCodePoint_def uriUnescaped_def utf8_def escape_def hexDigit_def
        lit_def)
  have q: "lit ''/api/messages/poll?since='' @ concat (map escapeCodePoint [48, 58, 48])
        = lit ''/api/messages/poll?since=0%3A0''"
    "lit ''/api/messages/poll?since='' @ concat (map escapeCodePoint [65, 233])
        = lit ''/api/messages/poll?since=A%C3%A9''"
    by (simp_all add: e) (simp_all add: lit_def)
  have "pollMessages (lit ''0:0'') =
      Inr (GET (lit ''/api/messages/poll?since='' @ concat (map escapeCodePoint [48, 58, 48])))"
    using poll_request_encodes_cursor [of "lit ''0:0''", THEN conjunct1]
    by (simp only: c option.case)
  moreover have "pollMessages [0x41, 0xE9] =
      Inr (GET (lit ''/api/messages/poll?since='' @ concat (map escapeCodePoint [65, 233])))"
    using poll_request_encodes_cursor [of "[0x41, 0xE9]", THEN conjunct1]
    by (simp only: c option.case)
  ultimately show ?thesis by (simp only: q simp_thms)
qed

text \<open>
  C7 as stated, for every cursor string, fails at a cursor that is one high surrogate:
  the call throws \<open>URIError\<close> instead of making the request.
\<close>

theorem poll_unpaired_surrogate_no_request:
  "pollMessages [0xD800] = Inl URIError"
  by (simp add: pollMessages_def uriUnescaped_def isHighSurrogate_def isLowSurrogate_def)

subsection \<open>The sender\<close>

text \<open>
  C8, as the code has it.  \<open>getDeviceName\<close> returns the value of the first \<open>device\<close>
  parameter when there is one and it is not empty, and \<open>Browser\<close> otherwise;
  \<open>initDevice\<close> stores it in \<open>deviceName\<close>; every request that \<open>handleSendMessage\<close>
  makes carries the \<open>deviceName\<close> of the state as its sender, so every request made
  once \<open>initDevice\<close> has stored the name carries what \<open>getDeviceName\<close> returned.
\<close>

theorem sender_is_device_name:
  "getDeviceName params =
     (case find (\<lambda>p. fst p = lit ''device'') params of
        None \<Rightarrow> lit ''Browser''
      | Some (n, v) \<Rightarrow> if v \<noteq> [] then v else lit ''Browser'')
   \<and> deviceName (initDevice params c) = getDeviceName params
   \<and> (\<forall>r. handleSendMessage c content type file = Some r \<longrightarrow>
          sender_of r = Some (deviceName c))
   \<and> (\<forall>r. input_request c e = Some r \<longrightarrow> sender_of r = Some (deviceName c))
   \<and> (\<forall>r. input_request (initDevice params c) e = Some r \<longrightarrow>
          sender_of r = Some (getDeviceName params))"
proof -
  have a: "getDeviceName params =
     (case find (\<lambda>p. fst p = lit ''device'') params of
        None \<Rightarrow> lit ''Browser''
      | Some (n, v) \<Rightarrow> if v \<noteq> [] then v else lit ''Browser'')"
    by (simp add: getDeviceName_def get_find split: option.split prod.split)
  have b: "deviceName (initDevice params c) = getDeviceName params"
    by (simp add: initDevice_def)
  have d: "\<forall>r. input_request (initDevice params c) e = Some r \<longrightarrow>
          sender_of r = Some (getDeviceName params)"
    using sender_of_handleSendMessage [of "initDevice params c"] b
    by (auto simp: input_request_def split: option.splits)
  have e: "\<forall>r. input_request c e = Some r \<longrightarrow> sender_of r = Some (deviceName c)"
    using sender_of_handleSendMessage [of c]
    by (auto simp: input_request_def split: option.splits)
  from a b d e sender_of_handleSendMessage show ?thesis by blast
qed

theorem sender_is_device_name_witness:
  "getDeviceName [(lit ''device'', lit ''iPhone'')] = lit ''iPhone''
   \<and> getDeviceName [(lit ''device'', [])] = lit ''Browser''
   \<and> sender_of (POST (lit ''/api/messages'')
        (Json [(lit ''content'', [0x68]), (lit ''sender'', lit ''iPhone''),
               (lit ''type'', lit ''text'')]) []) = Some (lit ''iPhone'')"
proof -
  let ?p = "[(lit ''device'', lit ''iPhone'')]"
  have r: "input_request (initDevice ?p chat_init) (Submit [0x68]) =
      Some (POST (lit ''/api/messages'')
        (Json [(lit ''content'', [0x68]), (lit ''sender'', getDeviceName ?p),
               (lit ''type'', lit ''text'')]) [])"
    by (simp add: input_request_def handleSubmit_def trim_def isWhiteSpace_def
        handleSendMessage_eval initDevice_def chat_init_def)
  from sender_is_device_name [of ?p chat_init "[]" Text None "Submit [0x68]"] r
    sender_is_device_name [of "[(lit ''device'', [])]" chat_init "[]" Text None "Submit [0x68]"]
  show ?thesis by (simp add: lit_def)
qed

text \<open>
  C8 as stated, for every message the client sends, fails in the state the component
  starts in: with \<open>?device=iPhone\<close> in the URL, a message sent before \<open>initDevice\<close> has
  stored the name has the sender \<open>Browser\<close>.
\<close>

theorem sender_before_initDevice:
  "map_option sender_of (input_request chat_init (Submit [0x68])) = Some (Some (lit ''Browser''))
   \<and> getDeviceName [(lit ''device'', lit ''iPhone'')] = lit ''iPhone''
   \<and> lit ''Browser'' \<noteq> lit ''iPhone''"
  by (simp add: input_request_def handleSubmit_def trim_def isWhiteSpace_def
      handleSendMessage_eval chat_init_def sender_of_def getDeviceName_def lit_def)

subsection \<open>Text messages\<close>

text \<open>
  C9.  \<open>handleSubmit\<close> calls \<open>onSendMessage\<close> exactly when the trimmed input is not
  empty and the input is not disabled, with the trimmed input as content: the input
  without the white space before and after it.  Every call with
  type \<open>text\<close> comes from a submit, so its content is a trimmed input: not empty, with no
  white space at either end, hence not only white space; and so is the \<open>content\<close> of
  every JSON request the input leads to.
\<close>

theorem text_content_is_trimmed:
  "handleSubmit message disabled =
     (if trim message \<noteq> [] \<and> \<not> disabled
      then Some \<lparr>content_arg = trim message, type_arg = Text, file_arg = None\<rparr>
      else None)
   \<and> (\<exists>pre post. message = pre @ trim message @ post
         \<and> (\<forall>ch \<in> set pre. isWhiteSpace ch) \<and> (\<forall>ch \<in> set post. isWhiteSpace ch))
   \<and> (\<forall>call. input_call c e = Some call \<and> type_arg call = Text \<longrightarrow>
         (\<exists>m. e = Submit m \<and> content_arg call = trim m) \<and> \<not> loading c
         \<and> content_arg call \<noteq> []
         \<and> \<not> isWhiteSpace (hd (content_arg call))
         \<and> \<not> isWhiteSpace (last (content_arg call))
         \<and> \<not> (\<forall>ch \<in> set (content_arg call). isWhiteSpace ch))
   \<and> (\<forall>url kvs headers. input_request c e = Some (POST url (Json kvs) headers) \<longrightarrow>
         (\<exists>m. e = Submit m \<and> map_of kvs (lit ''content'') = Some (trim m)
              \<and> trim m \<noteq> [] \<and> \<not> (\<forall>ch \<in> set (trim m). isWhiteSpace ch)))"
proof -
  have a: "handleSubmit message disabled =
     (if trim message \<noteq> [] \<and> \<not> disabled
      then Some \<lparr>content_arg = trim message, type_arg = Text, file_arg = None\<rparr>
      else None)"
    by (simp add: handleSubmit_def)
  have b: "(\<exists>m. e = Submit m \<and> content_arg call = trim m) \<and> \<not> loading c
         \<and> content_arg call \<noteq> []
         \<and> \<not> isWhiteSpace (hd (content_arg call))
         \<and> \<not> isWhiteSpace (last (content_arg call))
         \<and> \<not> (\<forall>ch \<in> set (content_arg call). isWhiteSpace ch)"
    if "input_call c e = Some call" and "type_arg call = Text" for call
  proof -
    from input_call_Text [OF that] obtain m where
      m: "e = Submit m" "content_arg call = trim m" "trim m \<noteq> []" "\<not> loading c"
      by blast
    from trim_not_blank [OF m(3)] not_blank [OF m(3)] m show ?thesis by simp
  qed
  have d: "\<exists>m. e = Submit m \<and> map_of kvs (lit ''content'') = Some (trim m)
              \<and> trim m \<noteq> [] \<and> \<not> (\<forall>ch \<in> set (trim m). isWhiteSpace ch)"
    if r: "input_request c e = Some (POST url (Json kvs) headers)" for url kvs headers
  proof -
    from r obtain call where call: "input_call c e = Some call"
      and h: "handleSendMessage c (content_arg call) (type_arg call) (file_arg call)
            = Some (POST url (Json kvs) headers)"
      by (auto simp: input_request_def split: option.splits)
    from h have t: "type_arg call = Text"
      and k: "map_of kvs (lit ''content'') = Some (content_arg call)"
      by (auto simp: handleSendMessage_eval split: if_splits option.splits)
    from b [OF call t] k show ?thesis by auto
  qed
  from a trim_decompose [of message] b d show ?thesis by blast
qed

theorem text_content_is_trimmed_witness:
  "handleSubmit [0x3000, 0x20, 0x68, 0x69, 0xA] False =
     Some \<lparr>content_arg = [0x68, 0x69], type_arg = Text, file_arg = None\<rparr>
   \<and> handleSubmit [0x3000, 0x20] False = None"
proof -
  have w: "isWhiteSpace 0x3000" "isWhiteSpace 0x20" "isWhiteSpace 0xA"
    "\<not> isWhiteSpace 0x68" "\<not> isWhiteSpace 0x69"
    by (simp_all add: isWhiteSpace_def)
  have t: "trim [0x3000, 0x20, 0x68, 0x69, 0xA] = [0x68, 0x69]" "trim [0x3000, 0x20] = []"
    by (simp_all add: trim_def w)
  from text_content_is_trimmed [of "[0x3000, 0x20, 0x68, 0x69, 0xA]" False chat_init "Submit []",
      THEN conjunct1]
    text_content_is_trimmed [of "[0x3000, 0x20]" False chat_init "Submit []", THEN conjunct1]
  show ?thesis by (simp only: t) simp
qed

subsection \<open>Pasting\<close>

text \<open>
  C10.  \<open>handlePaste\<close> makes at most one call: for the first item whose type contains
  \<open>image\<close> and whose \<open>getAsFile\<close> gives a file, with empty content, type \<open>image\<close> and
  that file, which \<open>handleSendMessage\<close> uploads; every other item is passed over.  The
  test \<open>indexOf('image') !== -1\<close> holds exactly when the type contains \<open>image\<close>.
\<close>

theorem paste_uploads_first_image:
  "handlePaste items =
     (case find (\<lambda>item. indexOf (type_item item) (lit ''image'') \<noteq> - 1
                          \<and> getAsFile item \<noteq> None) items of
        None \<Rightarrow> None
      | Some item \<Rightarrow> Some \<lparr>content_arg = [], type_arg = Image, file_arg = getAsFile item\<rparr>)
   \<and> input_request c (Paste items) =
     (case find (\<lambda>item. indexOf (type_item item) (lit ''image'') \<noteq> - 1
                          \<and> getAsFile item \<noteq> None) items of
        None \<Rightarrow> None
      | Some item \<Rightarrow> map_option (\<lambda>f. uploadFile f (deviceName c)) (getAsFile item))
   \<and> (indexOf t (lit ''image'') \<noteq> - 1 \<longleftrightarrow> (\<exists>pre post. t = pre @ lit ''image'' @ post))"
proof -
  have "input_request c (Paste items) =
     (case find (\<lambda>item. indexOf (type_item item) (lit ''image'') \<noteq> - 1
                          \<and> getAsFile item \<noteq> None) items of
        None \<Rightarrow> None
      | Some item \<Rightarrow> map_option (\<lambda>f. uploadFile f (deviceName c)) (getAsFile item))"
    by (simp add: input_request_def handlePaste_find handleSendMessage_def
        split: option.split)
  with handlePaste_find [of items] indexOf_found [of t "lit ''image''"] show ?thesis
    by blast
qed

theorem paste_uploads_first_image_witness:
  "handlePaste
     [\<lparr>type_item = lit ''text/plain'', getAsFile = None\<rparr>,
      \<lparr>type_item = lit ''image/png'', getAsFile = None\<rparr>,
      \<lparr>type_item = lit ''image/png'',
       getAsFile = Some \<lparr>name_file = lit ''a'', type_file = lit ''image/png'', size_file = 1\<rparr>\<rparr>,
      \<lparr>type_item = lit ''image/gif'',
       getAsFile = Some \<lparr>name_file = lit ''b'', type_file = lit ''image/gif'', size_file = 2\<rparr>\<rparr>]
   = Some \<lparr>content_arg = [], type_arg = Image,
       file_arg = Some \<lparr>name_file = lit ''a'', type_file = lit ''image/png'', size_file = 1\<rparr>\<rparr>"
  using paste_uploads_first_image [of
     "[\<lparr>type_item = lit ''text/plain'', getAsFile = None\<rparr>,
      \<lparr>type_item = lit ''image/png'', getAsFile = None\<rparr>,
      \<lparr>type_item = lit ''image/png'',
       getAsFile = Some \<lparr>name_file = lit ''a'', type_file = lit ''image/png'', size_file = 1\<rparr>\<rparr>,
      \<lparr>type_item = lit ''image/gif'',
       getAsFile = Some \<lparr>name_file = lit ''b'', type_file = lit ''image/gif'', size_file = 2\<rparr>\<rparr>]"
     chat_init "[]"]
  by (simp add: indexOf_def lit_def)

end
